theory Spec2Isabelle
  imports Main "HOL-Library.Word"
begin

section \<open>Pixels and the blackness predicate\<close>

text \<open>
  The values that \<^verbatim>\<open>getdata()\<close> hands to the Python code: an \<^verbatim>\<open>int\<close> for a
  single-band image, a tuple of three \<^verbatim>\<open>int\<close>s for an RGB image. These are the two
  kinds of pixel of the data model; a tuple of another length, on which the unpacking
  \<^verbatim>\<open>r, g, b = pixel\<close> raises, belongs to an image mode that is not modelled, and
  \<^verbatim>\<open>unletterbox\<close> only ever scans a single-band copy.
\<close>

datatype pixel = Gray int | RGB int int int

text \<open>
  \<^verbatim>\<open>is_pixel_black\<close> (unboxing.py, lines 8 to 13): the \<^verbatim>\<open>isinstance(pixel, int)\<close>
  branch compares with \<^verbatim>\<open><\<close>, the tuple branch with \<^verbatim>\<open><=\<close> on every channel.
\<close>

fun is_pixel_black :: "pixel \<Rightarrow> int \<Rightarrow> bool" where
  "is_pixel_black (Gray p) black_threshold = (p < black_threshold)"
| "is_pixel_black (RGB r g b) black_threshold =
     (r \<le> black_threshold \<and> g \<le> black_threshold \<and> b \<le> black_threshold)"

section \<open>Images of the imaging library\<close>

text \<open>
  An image of the imaging library, as far as the program reads it: the \<^verbatim>\<open>format\<close>
  attribute (set when a file is opened, \<^verbatim>\<open>None\<close> on every derived image), the
  \<^verbatim>\<open>size\<close> and the pixel store, row after row, of 8-bit bands. The constructor of the
  store is the mode: \<^verbatim>\<open>L\<close> or \<^verbatim>\<open>RGB\<close>. Decoding a file into an image and encoding
  an image into bytes are the codec's work and stay outside.
\<close>

type_synonym byte = "8 word"

datatype raster = LData "byte list" | RGBData "(byte \<times> byte \<times> byte) list"

record image =
  format :: "string option"
  width :: nat
  height :: nat
  data :: raster

text \<open>A Python exception, by the name of its class.\<close>

datatype error = PyException string

type_synonym box = "int \<times> int \<times> int \<times> int"

definition mode :: "image \<Rightarrow> string" where
  "mode im = (case data im of LData _ \<Rightarrow> ''L'' | RGBData _ \<Rightarrow> ''RGB'')"

text \<open>
  The store has one entry for each pixel. Every image that the library builds
  satisfies this.
\<close>

definition wf_image :: "image \<Rightarrow> bool" where
  "wf_image im =
     (case data im of
        LData vs \<Rightarrow> length vs = width im * height im
      | RGBData ts \<Rightarrow> length ts = width im * height im)"

text \<open>
  The entry of a row-major store at the coordinates \<open>(x, y)\<close>; outside the image it is
  the fill value \<open>z\<close>.
\<close>

definition px :: "'a \<Rightarrow> nat \<Rightarrow> nat \<Rightarrow> 'a list \<Rightarrow> int \<Rightarrow> int \<Rightarrow> 'a" where
  "px z w h xs x y =
     (if 0 \<le> x \<and> x < int w \<and> 0 \<le> y \<and> y < int h then xs ! (nat y * w + nat x) else z)"

text \<open>
  The store of the region \<open>(x0, y0, x1, y1)\<close>: \<open>x1 - x0\<close> columns and \<open>y1 - y0\<close> rows,
  the pixel \<open>(i, j)\<close> of the region being the pixel \<open>(x0 + i, y0 + j)\<close> of the source.
\<close>

definition region :: "'a \<Rightarrow> nat \<Rightarrow> nat \<Rightarrow> 'a list \<Rightarrow> box \<Rightarrow> 'a list" where
  "region z w h xs bx =
     (case bx of (x0, y0, x1, y1) \<Rightarrow>
        concat (map (\<lambda>j. map (\<lambda>i. px z w h xs (x0 + int i) (y0 + int j)) [0..<nat (x1 - x0)])
                    [0..<nat (y1 - y0)]))"

text \<open>
  \<^verbatim>\<open>Image.crop(box)\<close>: a box whose right edge is left of its left edge, or whose lower
  edge is above its upper edge, raises \<^verbatim>\<open>ValueError\<close>; otherwise the result is a new
  image of the same mode holding the region, with no \<^verbatim>\<open>format\<close>.
\<close>

definition crop :: "image \<Rightarrow> box \<Rightarrow> error + image" where
  "crop im bx =
     (case bx of (x0, y0, x1, y1) \<Rightarrow>
        if x1 < x0 then Inl (PyException ''ValueError'')
        else if y1 < y0 then Inl (PyException ''ValueError'')
        else Inr \<lparr> format = None, width = nat (x1 - x0), height = nat (y1 - y0),
                   data = (case data im of
                             LData vs \<Rightarrow> LData (region 0 (width im) (height im) vs bx)
                           | RGBData ts \<Rightarrow>
                               RGBData (region (0, 0, 0) (width im) (height im) ts bx)) \<rparr>)"

text \<open>\<^verbatim>\<open>Image.getdata()\<close>: the pixels in row-major order, as Python values.\<close>

definition getdata :: "image \<Rightarrow> pixel list" where
  "getdata im =
     (case data im of
        LData vs \<Rightarrow> map (\<lambda>v. Gray (uint v)) vs
      | RGBData ts \<Rightarrow> map (\<lambda>(r, g, b). RGB (uint r) (uint g) (uint b)) ts)"

text \<open>
  \<^verbatim>\<open>Image.convert("L")\<close>: a copy of an \<^verbatim>\<open>L\<close> image; for an \<^verbatim>\<open>RGB\<close> image the
  ITU-R 601-2 luma of each pixel, in the library's fixed-point form.
\<close>

definition rgb2l :: "byte \<times> byte \<times> byte \<Rightarrow> byte" where
  "rgb2l t =
     (case t of (r, g, b) \<Rightarrow>
        word_of_nat ((unat r * 19595 + unat g * 38470 + unat b * 7471 + 32768) div 65536))"

definition convert_L :: "image \<Rightarrow> image" where
  "convert_L im =
     \<lparr> format = None, width = width im, height = height im,
       data = (case data im of LData vs \<Rightarrow> LData vs | RGBData ts \<Rightarrow> LData (map rgb2l ts)) \<rparr>"

section \<open>The four edge scanners\<close>

text \<open>
  Each scanner is a \<^verbatim>\<open>for\<close> loop over a \<^verbatim>\<open>range\<close>; the loop is a recursion over the
  list of the indices still to visit. \<^verbatim>\<open>all(...)\<close> over the pixels of the line is
  \<^const>\<open>list_all\<close>.
\<close>

fun top_loop :: "image \<Rightarrow> int \<Rightarrow> nat list \<Rightarrow> error + int" where
  "top_loop im black_threshold [] = Inr (int (height im))"
| "top_loop im black_threshold (y # ys) =
     (case crop im (0, int y, int (width im), int y + 1) of
        Inl e \<Rightarrow> Inl e
      | Inr row \<Rightarrow>
          if list_all (\<lambda>p. is_pixel_black p black_threshold) (getdata row)
          then top_loop im black_threshold ys
          else Inr (int y))"

definition detect_top_border :: "image \<Rightarrow> int \<Rightarrow> error + int" where
  "detect_top_border im black_threshold = top_loop im black_threshold [0..<height im]"

fun bottom_loop :: "image \<Rightarrow> int \<Rightarrow> nat list \<Rightarrow> error + int" where
  "bottom_loop im black_threshold [] = Inr (int (height im))"
| "bottom_loop im black_threshold (y # ys) =
     (case crop im (0, int y, int (width im), int y + 1) of
        Inl e \<Rightarrow> Inl e
      | Inr row \<Rightarrow>
          if list_all (\<lambda>p. is_pixel_black p black_threshold) (getdata row)
          then bottom_loop im black_threshold ys
          else Inr (int (height im) - int y - 1))"

definition detect_bottom_border :: "image \<Rightarrow> int \<Rightarrow> error + int" where
  "detect_bottom_border im black_threshold =
     bottom_loop im black_threshold (rev [0..<height im])"

fun left_loop :: "image \<Rightarrow> int \<Rightarrow> nat list \<Rightarrow> error + int" where
  "left_loop im black_threshold [] = Inr (int (width im))"
| "left_loop im black_threshold (x # xs) =
     (case crop im (int x, 0, int x + 1, int (height im)) of
        Inl e \<Rightarrow> Inl e
      | Inr col \<Rightarrow>
          if list_all (\<lambda>p. is_pixel_black p black_threshold) (getdata col)
          then left_loop im black_threshold xs
          else Inr (int x))"

definition detect_left_border :: "image \<Rightarrow> int \<Rightarrow> error + int" where
  "detect_left_border im black_threshold = left_loop im black_threshold [0..<width im]"

fun right_loop :: "image \<Rightarrow> int \<Rightarrow> nat list \<Rightarrow> error + int" where
  "right_loop im black_threshold [] = Inr (int (width im))"
| "right_loop im black_threshold (x # xs) =
     (case crop im (int x, 0, int x + 1, int (height im)) of
        Inl e \<Rightarrow> Inl e
      | Inr col \<Rightarrow>
          if list_all (\<lambda>p. is_pixel_black p black_threshold) (getdata col)
          then right_loop im black_threshold xs
          else Inr (int (width im) - int x - 1))"

definition detect_right_border :: "image \<Rightarrow> int \<Rightarrow> error + int" where
  "detect_right_border im black_threshold =
     right_loop im black_threshold (rev [0..<width im])"

section \<open>The crop\<close>

text \<open>
  \<^verbatim>\<open>unletterbox\<close> (lines 57 to 70), from the opened image on. The four scanners run
  on the grayscale copy, the crop is taken from the opened image, and the result is
  saved in the format of the opened image. The codec is not part of the program: the
  value returned here is the pair of arguments of the \<^verbatim>\<open>save\<close> call, the format and
  the image written.
\<close>

definition unletterbox :: "image \<Rightarrow> int \<Rightarrow> error + (string option \<times> image)" where
  "unletterbox im black_threshold =
     (let grayscale_image = convert_L im in
      case detect_top_border grayscale_image black_threshold of
        Inl e \<Rightarrow> Inl e
      | Inr top' \<Rightarrow>
      (case detect_bottom_border grayscale_image black_threshold of
        Inl e \<Rightarrow> Inl e
      | Inr bottom \<Rightarrow>
      (case detect_left_border grayscale_image black_threshold of
        Inl e \<Rightarrow> Inl e
      | Inr left \<Rightarrow>
      (case detect_right_border grayscale_image black_threshold of
        Inl e \<Rightarrow> Inl e
      | Inr right \<Rightarrow>
      (case crop im (left, top', int (width im) - right, int (height im) - bottom) of
        Inl e \<Rightarrow> Inl e
      | Inr cropped_img \<Rightarrow> Inr (format im, cropped_img))))))"

section \<open>Running the program twice\<close>



section \<open>Lines of an image\<close>

text \<open>
  The Python value of the pixel at column \<open>x\<close> and row \<open>y\<close>, and the two predicates
  the claims speak of: every pixel of row \<open>y\<close>, or of column \<open>x\<close>, is black at the
  threshold \<open>T\<close>.
\<close>

definition pixel_of :: "image \<Rightarrow> nat \<Rightarrow> nat \<Rightarrow> pixel" where
  "pixel_of im x y =
     (case data im of
        LData vs \<Rightarrow> Gray (uint (px 0 (width im) (height im) vs (int x) (int y)))
      | RGBData ts \<Rightarrow>
          (case px (0, 0, 0) (width im) (height im) ts (int x) (int y) of
             (r, g, b) \<Rightarrow> RGB (uint r) (uint g) (uint b)))"

definition row_black :: "image \<Rightarrow> int \<Rightarrow> nat \<Rightarrow> bool" where
  "row_black im T y = list_all (\<lambda>x. is_pixel_black (pixel_of im x y) T) [0..<width im]"

definition col_black :: "image \<Rightarrow> int \<Rightarrow> nat \<Rightarrow> bool" where
  "col_black im T x = list_all (\<lambda>y. is_pixel_black (pixel_of im x y) T) [0..<height im]"

section \<open>Example images\<close>

text \<open>A 3 by 3 RGB image: one white pixel inside a black ring one pixel wide.\<close>

definition ring3 :: image where
  "ring3 =
     \<lparr> format = Some ''PNG'', width = 3, height = 3,
       data = RGBData [(0, 0, 0), (0, 0, 0), (0, 0, 0),
                       (0, 0, 0), (255, 255, 255), (0, 0, 0),
                       (0, 0, 0), (0, 0, 0), (0, 0, 0)] \<rparr>"

text \<open>A single grayscale pixel of value 0.\<close>

definition black1 :: image where
  "black1 = \<lparr> format = Some ''PNG'', width = 1, height = 1, data = LData [0] \<rparr>"

text \<open>A 2 by 2 RGB image with white pixels on one diagonal and black ones on the other.\<close>

definition diag2 :: image where
  "diag2 =
     \<lparr> format = Some ''PNG'', width = 2, height = 2,
       data = RGBData [(255, 255, 255), (0, 0, 0),
                       (0, 0, 0), (255, 255, 255)] \<rparr>"

text \<open>
  An RGB image of one row and two columns whose left pixel is black on the grayscale
  copy at threshold 1 (its luma is 0) and not black as a colour pixel (its blue
  channel is 2).
\<close>

definition blue2 :: image where
  "blue2 =
     \<lparr> format = Some ''PNG'', width = 2, height = 1,
       data = RGBData [(0, 0, 2), (255, 255, 255)] \<rparr>"



section \<open>The pixel predicate\<close>

text \<open>
  Claim C1. On a grayscale pixel the predicate holds exactly when the luminance is
  strictly below the threshold; on an RGB pixel exactly when each of the three
  channels is at most the threshold. So at the boundary, whatever the threshold
  (in particular from 0 to 255), the colour pixel \<open>(T, T, T)\<close> is black and the
  grayscale pixel \<open>T\<close> is not.
\<close>

theorem is_pixel_black_cases:
  "(is_pixel_black (Gray v) T = (v < T)) \<and>
   (is_pixel_black (RGB r g b) T = (r \<le> T \<and> g \<le> T \<and> b \<le> T)) \<and>
   is_pixel_black (RGB T T T) T \<and> \<not> is_pixel_black (Gray T) T"
  by simp

section \<open>What the scanners compute\<close>

lemma region_row:
  "region z w h xs (0, int y, int w, int y + 1) = map (\<lambda>i. px z w h xs (int i) (int y)) [0..<w]"
  by (simp add: region_def)

lemma region_col:
  "region z w h xs (int x, 0, int x + 1, int h) = map (\<lambda>j. px z w h xs (int x) (int j)) [0..<h]"
  by (simp add: region_def)

lemma crop_row:
  "\<exists>row. crop im (0, int y, int (width im), int y + 1) = Inr row \<and>
     getdata row = map (\<lambda>x. pixel_of im x y) [0..<width im]"
  by (cases "data im") (simp_all add: crop_def getdata_def pixel_of_def region_row split: prod.splits)

lemma crop_col:
  "\<exists>col. crop im (int x, 0, int x + 1, int (height im)) = Inr col \<and>
     getdata col = map (\<lambda>y. pixel_of im x y) [0..<height im]"
  by (cases "data im") (simp_all add: crop_def getdata_def pixel_of_def region_col split: prod.splits)

lemma top_loop_dropWhile:
  "top_loop im T ys =
     Inr (case dropWhile (row_black im T) ys of [] \<Rightarrow> int (height im) | y # _ \<Rightarrow> int y)"
proof (induction ys)
  case Nil
  show ?case by simp
next
  case (Cons y ys)
  obtain row where r: "crop im (0, int y, int (width im), int y + 1) = Inr row"
    and g: "getdata row = map (\<lambda>x. pixel_of im x y) [0..<width im]"
    using crop_row by blast
  have "list_all (\<lambda>p. is_pixel_black p T) (getdata row) = row_black im T y"
    by (simp add: g row_black_def list_all_iff)
  with r Cons show ?case by simp
qed


lemma bottom_loop_dropWhile:
  "bottom_loop im T ys =
     Inr (case dropWhile (row_black im T) ys of
            [] \<Rightarrow> int (height im) | y # _ \<Rightarrow> int (height im) - int y - 1)"
proof (induction ys)
  case Nil
  show ?case by simp
next
  case (Cons y ys)
  obtain row where r: "crop im (0, int y, int (width im), int y + 1) = Inr row"
    and g: "getdata row = map (\<lambda>x. pixel_of im x y) [0..<width im]"
    using crop_row by blast
  have "list_all (\<lambda>p. is_pixel_black p T) (getdata row) = row_black im T y"
    by (simp add: g row_black_def list_all_iff)
  with r Cons show ?case by simp
qed

lemma left_loop_dropWhile:
  "left_loop im T xs =
     Inr (case dropWhile (col_black im T) xs of [] \<Rightarrow> int (width im) | x # _ \<Rightarrow> int x)"
proof (induction xs)
  case Nil
  show ?case by simp
next
  case (Cons x xs)
  obtain col where r: "crop im (int x, 0, int x + 1, int (height im)) = Inr col"
    and g: "getdata col = map (\<lambda>y. pixel_of im x y) [0..<height im]"
    using crop_col by blast
  have "list_all (\<lambda>p. is_pixel_black p T) (getdata col) = col_black im T x"
    by (simp add: g col_black_def list_all_iff)
  with r Cons show ?case by simp
qed

lemma right_loop_dropWhile:
  "right_loop im T xs =
     Inr (case dropWhile (col_black im T) xs of
            [] \<Rightarrow> int (width im) | x # _ \<Rightarrow> int (width im) - int x - 1)"
proof (induction xs)
  case Nil
  show ?case by simp
next
  case (Cons x xs)
  obtain col where r: "crop im (int x, 0, int x + 1, int (height im)) = Inr col"
    and g: "getdata col = map (\<lambda>y. pixel_of im x y) [0..<height im]"
    using crop_col by blast
  have "list_all (\<lambda>p. is_pixel_black p T) (getdata col) = col_black im T x"
    by (simp add: g col_black_def list_all_iff)
  with r Cons show ?case by simp
qed

lemma first_failing_upt:
  "(case dropWhile P [0..<n] of [] \<Rightarrow> int n | k # _ \<Rightarrow> int k) =
     int (length (takeWhile P [0..<n]))"
proof -
  let ?k = "length (takeWhile P [0..<n])"
  have le: "?k \<le> n" using length_takeWhile_le [of P "[0..<n]"] by simp
  have d: "dropWhile P [0..<n] = [?k..<n]"
    by (simp add: dropWhile_eq_drop drop_upt)
  show ?thesis
  proof (cases "?k < n")
    case True
    then have "[?k..<n] = ?k # [Suc ?k..<n]"
      by (rule upt_conv_Cons)
    with d have e: "dropWhile P [0..<n] = ?k # [Suc ?k..<n]"
      by (rule trans)
    show ?thesis unfolding e by simp
  next
    case False
    with le have kn: "?k = n" by simp
    from d have "dropWhile P [0..<n] = [n..<n]" by (simp only: kn)
    then have e: "dropWhile P [0..<n] = []" by simp
    show ?thesis unfolding e kn by simp
  qed
qed

lemma first_failing_rev_upt:
  "(case dropWhile P (rev [0..<n]) of [] \<Rightarrow> int n | k # _ \<Rightarrow> int n - int k - 1) =
     int (length (takeWhile P (rev [0..<n])))"
proof -
  let ?xs = "rev [0..<n]"
  let ?k = "length (takeWhile P ?xs)"
  have le: "?k \<le> n" using length_takeWhile_le [of P ?xs] by simp
  have d: "dropWhile P ?xs = drop ?k ?xs"
    by (rule dropWhile_eq_drop)
  show ?thesis
  proof (cases "?k < n")
    case True
    then have "drop ?k ?xs = ?xs ! ?k # drop (Suc ?k) ?xs"
      by (simp add: Cons_nth_drop_Suc)
    moreover have "?xs ! ?k = n - Suc ?k"
      using True by (simp add: rev_nth)
    ultimately have e: "dropWhile P ?xs = (n - Suc ?k) # drop (Suc ?k) ?xs"
      using d by (simp only:)
    have "int n - int (n - Suc ?k) - 1 = int ?k" using True by linarith
    then show ?thesis unfolding e by (simp only: list.case)
  next
    case False
    with le have kn: "?k = n" by simp
    from d have "dropWhile P ?xs = drop n ?xs" by (simp only: kn)
    then have e: "dropWhile P ?xs = []" by simp
    show ?thesis unfolding e kn by simp
  qed
qed

lemma detect_top_border_count:
  "detect_top_border im T = Inr (int (length (takeWhile (row_black im T) [0..<height im])))"
  by (simp add: detect_top_border_def top_loop_dropWhile first_failing_upt)

lemma detect_bottom_border_count:
  "detect_bottom_border im T =
     Inr (int (length (takeWhile (row_black im T) (rev [0..<height im]))))"
  by (simp only: detect_bottom_border_def bottom_loop_dropWhile first_failing_rev_upt)

lemma detect_left_border_count:
  "detect_left_border im T = Inr (int (length (takeWhile (col_black im T) [0..<width im])))"
  by (simp add: detect_left_border_def left_loop_dropWhile first_failing_upt)

lemma detect_right_border_count:
  "detect_right_border im T =
     Inr (int (length (takeWhile (col_black im T) (rev [0..<width im]))))"
  by (simp only: detect_right_border_def right_loop_dropWhile first_failing_rev_upt)

lemma takeWhile_all: "list_all P xs \<Longrightarrow> takeWhile P xs = xs"
  by (simp add: list_all_iff)

lemma length_takeWhile_mono:
  "(\<And>x. P x \<Longrightarrow> Q x) \<Longrightarrow> length (takeWhile P xs) \<le> length (takeWhile Q xs)"
  by (induction xs) auto

lemma takeWhile_both_ends:
  assumes "\<not> list_all P xs"
  shows "length (takeWhile P xs) + length (takeWhile P (rev xs)) < length xs"
proof -
  from assms have "dropWhile P xs \<noteq> []" by (simp add: list_all_iff)
  then obtain y zs where d: "dropWhile P xs = y # zs" by (cases "dropWhile P xs") auto
  then have ny: "\<not> P y" by (simp add: dropWhile_eq_Cons_conv)
  have xs: "xs = takeWhile P xs @ y # zs" using d takeWhile_dropWhile_id [of P xs] by simp
  then have "rev xs = rev zs @ y # rev (takeWhile P xs)" by (metis rev.simps(2) rev_append append.assoc append_Cons append_Nil)
  then have "takeWhile P (rev xs) = takeWhile P (rev zs)" using ny by (simp add: takeWhile_tail)
  then have "length (takeWhile P (rev xs)) \<le> length zs"
    using length_takeWhile_le [of P "rev zs"] by simp
  moreover have "length xs = length (takeWhile P xs) + Suc (length zs)"
    using arg_cong [OF xs, of length] by simp
  ultimately show ?thesis by simp
qed

text \<open>
  Claim C2. Each scanner returns the number of consecutive lines, counted from its
  own edge, on which every pixel is black: the length of the longest prefix of fully
  black rows for the top, of fully black rows taken from the last one backwards for
  the bottom, and the same over the columns for the left and the right. The bottom
  and right results are counts from the far edge, not indices. When every line along
  the axis is fully black the result is the full height or width.
\<close>

theorem scanners_count_border_lines:
  "detect_top_border im T =
     Inr (int (length (takeWhile (row_black im T) [0..<height im]))) \<and>
   detect_bottom_border im T =
     Inr (int (length (takeWhile (row_black im T) (rev [0..<height im])))) \<and>
   detect_left_border im T =
     Inr (int (length (takeWhile (col_black im T) [0..<width im]))) \<and>
   detect_right_border im T =
     Inr (int (length (takeWhile (col_black im T) (rev [0..<width im])))) \<and>
   (list_all (row_black im T) [0..<height im] \<longrightarrow>
      detect_top_border im T = Inr (int (height im)) \<and>
      detect_bottom_border im T = Inr (int (height im))) \<and>
   (list_all (col_black im T) [0..<width im] \<longrightarrow>
      detect_left_border im T = Inr (int (width im)) \<and>
      detect_right_border im T = Inr (int (width im)))"
proof -
  have full: "list_all P xs \<Longrightarrow>
      length (takeWhile P xs) = length xs \<and> length (takeWhile P (rev xs)) = length xs"
    for P :: "nat \<Rightarrow> bool" and xs
  proof -
    assume a: "list_all P xs"
    then have "list_all P (rev xs)" by (simp add: list_all_iff)
    then have e1: "takeWhile P (rev xs) = rev xs" by (rule takeWhile_all)
    have e2: "takeWhile P xs = xs" using a by (rule takeWhile_all)
    show ?thesis unfolding e1 e2 by simp
  qed
  show ?thesis
    using full [of "row_black im T" "[0..<height im]"] full [of "col_black im T" "[0..<width im]"]
    by (simp only: detect_top_border_count detect_bottom_border_count
        detect_left_border_count detect_right_border_count length_upt diff_zero) auto
qed

lemma pixel_ring3: "pixel_of (convert_L ring3) 1 1 = Gray 255"
  by (simp add: pixel_of_def convert_L_def ring3_def px_def rgb2l_def)

lemma rows_ring3:
  "row_black (convert_L ring3) 1 0" "\<not> row_black (convert_L ring3) 1 (Suc 0)" "row_black (convert_L ring3) 1 2"
  by (simp_all add: row_black_def pixel_of_def convert_L_def ring3_def px_def rgb2l_def upt_rec)

lemma cols_ring3:
  "col_black (convert_L ring3) 1 0" "\<not> col_black (convert_L ring3) 1 (Suc 0)" "col_black (convert_L ring3) 1 2"
  by (simp_all add: col_black_def pixel_of_def convert_L_def ring3_def px_def rgb2l_def upt_rec)

lemma dims_ring3: "height (convert_L ring3) = 3" "width (convert_L ring3) = 3"
  by (simp_all add: convert_L_def ring3_def)

theorem scanners_count_border_lines_witness:
  "detect_top_border (convert_L ring3) 1 = Inr 1 \<and>
   detect_bottom_border (convert_L ring3) 1 = Inr 1 \<and>
   detect_left_border (convert_L ring3) 1 = Inr 1 \<and>
   detect_right_border (convert_L ring3) 1 = Inr 1 \<and>
   list_all (row_black black1 1) [0..<height black1] \<and>
   list_all (col_black black1 1) [0..<width black1] \<and>
   detect_top_border black1 1 = Inr (int (height black1)) \<and>
   detect_bottom_border black1 1 = Inr (int (height black1)) \<and>
   detect_left_border black1 1 = Inr (int (width black1)) \<and>
   detect_right_border black1 1 = Inr (int (width black1))"
proof -
  have b: "list_all (row_black black1 1) [0..<height black1]"
      "list_all (col_black black1 1) [0..<width black1]"
    by (simp_all add: row_black_def col_black_def pixel_of_def black1_def px_def)
  have u: "[0..<3] = [0, 1, 2]" by (simp add: upt_rec)
  have A: "detect_top_border (convert_L ring3) 1 = Inr 1 \<and>
      detect_bottom_border (convert_L ring3) 1 = Inr 1 \<and>
      detect_left_border (convert_L ring3) 1 = Inr 1 \<and>
      detect_right_border (convert_L ring3) 1 = Inr 1"
    using scanners_count_border_lines [of "convert_L ring3" 1]
    by (simp add: dims_ring3 u rows_ring3 cols_ring3)
  have B: "detect_top_border black1 1 = Inr (int (height black1)) \<and>
      detect_bottom_border black1 1 = Inr (int (height black1)) \<and>
      detect_left_border black1 1 = Inr (int (width black1)) \<and>
      detect_right_border black1 1 = Inr (int (width black1))"
    using scanners_count_border_lines [of black1 1] b by blast
  show ?thesis using A B b by blast
qed

lemma is_pixel_black_mono: "T1 \<le> T2 \<Longrightarrow> is_pixel_black p T1 \<Longrightarrow> is_pixel_black p T2"
  by (cases p) auto

lemma row_black_mono: "T1 \<le> T2 \<Longrightarrow> row_black im T1 y \<Longrightarrow> row_black im T2 y"
  by (auto simp: row_black_def list_all_iff intro: is_pixel_black_mono)

lemma col_black_mono: "T1 \<le> T2 \<Longrightarrow> col_black im T1 x \<Longrightarrow> col_black im T2 x"
  by (auto simp: col_black_def list_all_iff intro: is_pixel_black_mono)

text \<open>
  Claim C8. Each of the four border widths is monotone in the threshold: for
  thresholds \<open>T1 \<le> T2\<close> every scanner returns at \<open>T1\<close> a width that is at most the
  width it returns at \<open>T2\<close>.
\<close>

theorem border_widths_monotone:
  assumes "T1 \<le> T2"
  shows "(\<exists>a b. detect_top_border im T1 = Inr a \<and> detect_top_border im T2 = Inr b \<and> a \<le> b) \<and>
    (\<exists>a b. detect_bottom_border im T1 = Inr a \<and> detect_bottom_border im T2 = Inr b \<and> a \<le> b) \<and>
    (\<exists>a b. detect_left_border im T1 = Inr a \<and> detect_left_border im T2 = Inr b \<and> a \<le> b) \<and>
    (\<exists>a b. detect_right_border im T1 = Inr a \<and> detect_right_border im T2 = Inr b \<and> a \<le> b)"
proof -
  have r: "length (takeWhile (row_black im T1) ys) \<le> length (takeWhile (row_black im T2) ys)" for ys
    using assms by (intro length_takeWhile_mono) (rule row_black_mono)
  have c: "length (takeWhile (col_black im T1) xs) \<le> length (takeWhile (col_black im T2) xs)" for xs
    using assms by (intro length_takeWhile_mono) (rule col_black_mono)
  show ?thesis
    using r c
    by (simp only: detect_top_border_count detect_bottom_border_count
        detect_left_border_count detect_right_border_count) auto
qed

lemma rows_ring3_zero:
  "\<not> row_black (convert_L ring3) 0 0" "\<not> col_black (convert_L ring3) 0 0"
  by (simp_all add: row_black_def col_black_def pixel_of_def convert_L_def ring3_def px_def rgb2l_def upt_rec)

theorem border_widths_monotone_witness:
  "(0::int) \<le> 1 \<and>
   detect_top_border (convert_L ring3) 0 = Inr 0 \<and> detect_top_border (convert_L ring3) 1 = Inr 1 \<and>
   (\<exists>a b. detect_bottom_border (convert_L ring3) 0 = Inr a \<and>
      detect_bottom_border (convert_L ring3) 1 = Inr b \<and> a \<le> b)"
proof -
  have h: "(0::int) \<le> 1" by simp
  have u: "[0..<3] = [0, 1, 2]" by (simp add: upt_rec)
  have t0: "detect_top_border (convert_L ring3) 0 = Inr 0"
    by (simp add: detect_top_border_count dims_ring3 u rows_ring3_zero)
  have t1: "detect_top_border (convert_L ring3) 1 = Inr 1"
    by (simp add: detect_top_border_count dims_ring3 u rows_ring3)
  show ?thesis
    using border_widths_monotone [OF h, of "convert_L ring3"] h t0 t1 by blast
qed

text \<open>
  Claim C9. When some pixel of the image is not black at the threshold (so some row,
  and some column, contains a non-border pixel), the top and bottom widths add up to
  strictly less than the height and the left and right widths to strictly less than
  the width: the crop rectangle is not empty along either axis.
\<close>

theorem opposite_borders_leave_room:
  assumes "x < width im" and "y < height im" and "\<not> is_pixel_black (pixel_of im x y) T"
  shows "\<exists>t b l r.
    detect_top_border im T = Inr t \<and> detect_bottom_border im T = Inr b \<and>
    detect_left_border im T = Inr l \<and> detect_right_border im T = Inr r \<and>
    t + b < int (height im) \<and> l + r < int (width im)"
proof -
  have "\<not> row_black im T y" using assms by (auto simp: row_black_def list_all_iff)
  then have "\<not> list_all (row_black im T) [0..<height im]"
    using assms by (auto simp: list_all_iff)
  from takeWhile_both_ends [OF this]
  have rows: "length (takeWhile (row_black im T) [0..<height im]) +
      length (takeWhile (row_black im T) (rev [0..<height im])) < height im" by simp
  have "\<not> col_black im T x" using assms by (auto simp: col_black_def list_all_iff)
  then have "\<not> list_all (col_black im T) [0..<width im]"
    using assms by (auto simp: list_all_iff)
  from takeWhile_both_ends [OF this]
  have cols: "length (takeWhile (col_black im T) [0..<width im]) +
      length (takeWhile (col_black im T) (rev [0..<width im])) < width im" by simp
  show ?thesis
    using rows cols
    by (simp only: detect_top_border_count detect_bottom_border_count
        detect_left_border_count detect_right_border_count) auto
qed

theorem opposite_borders_leave_room_witness:
  "1 < width (convert_L ring3) \<and> 1 < height (convert_L ring3) \<and>
   \<not> is_pixel_black (pixel_of (convert_L ring3) 1 1) 1 \<and>
   (\<exists>t b l r.
      detect_top_border (convert_L ring3) 1 = Inr t \<and>
      detect_bottom_border (convert_L ring3) 1 = Inr b \<and>
      detect_left_border (convert_L ring3) 1 = Inr l \<and>
      detect_right_border (convert_L ring3) 1 = Inr r \<and>
      t + b < int (height (convert_L ring3)) \<and> l + r < int (width (convert_L ring3)))"
proof -
  have a: "1 < width (convert_L ring3)" and b: "1 < height (convert_L ring3)"
    by (simp_all add: dims_ring3)
  have c: "\<not> is_pixel_black (pixel_of (convert_L ring3) 1 1) 1"
    by (simp only: pixel_ring3) simp
  show ?thesis
    using opposite_borders_leave_room [OF a b c] a b c by blast
qed

section \<open>Regions and crops\<close>

lemma length_grid: "length (concat (map (\<lambda>j. map (f j) [0..<w]) [0..<h])) = w * h"
  by (induction h) simp_all

lemma grid_nth:
  "i < w \<Longrightarrow> j < h \<Longrightarrow> concat (map (\<lambda>j. map (f j) [0..<w]) [0..<h]) ! (j * w + i) = f j i"
proof (induction h)
  case 0
  then show ?case by simp
next
  case (Suc h)
  let ?g = "\<lambda>n. concat (map (\<lambda>j. map (f j) [0..<w]) [0..<n])"
  have split: "?g (Suc h) = ?g h @ map (f h) [0..<w]" by simp
  show ?case
  proof (cases "j < h")
    case True
    then have "Suc j \<le> h" by simp
    then have "Suc j * w \<le> h * w" by (rule mult_le_mono1)
    then have "j * w + i < w * h" using Suc.prems(1) by (simp add: mult.commute)
    then have "?g (Suc h) ! (j * w + i) = ?g h ! (j * w + i)"
      unfolding split by (simp add: nth_append length_grid)
    with Suc.IH [OF Suc.prems(1) True] show ?thesis by simp
  next
    case False
    with Suc.prems have jh: "j = h" by simp
    have "?g (Suc h) ! (h * w + i) = map (f h) [0..<w] ! i"
      unfolding split by (simp add: nth_append length_grid mult.commute)
    then show ?thesis using Suc.prems(1) jh by simp
  qed
qed


lemma region_nth:
  "i < nat (x1 - x0) \<Longrightarrow> j < nat (y1 - y0) \<Longrightarrow>
   region z w h xs (x0, y0, x1, y1) ! (j * nat (x1 - x0) + i) = px z w h xs (x0 + int i) (y0 + int j)"
  by (simp add: region_def grid_nth)








lemma wf_convert_L: "wf_image im \<Longrightarrow> wf_image (convert_L im)"
  by (cases "data im") (auto simp: wf_image_def convert_L_def)

lemma pixel_of_crop:
  assumes "crop im (int x0, int y0, x1, y1) = Inr c" and "i < width c" and "j < height c"
  shows "pixel_of c i j = pixel_of im (x0 + i) (y0 + j)"
proof -
  from assms(1) have w: "width c = nat (x1 - int x0)" and h: "height c = nat (y1 - int y0)"
    by (auto simp: crop_def split: if_splits)
  have inb: "0 \<le> int i \<and> int i < int (width c) \<and> 0 \<le> int j \<and> int j < int (height c)"
    using assms by simp
  have r: "px z (width c) (height c) (region z' w' h' xs (int x0, int y0, x1, y1)) (int i) (int j) =
      px z' w' h' xs (int (x0 + i)) (int (y0 + j))" for z z' :: 'a and w' h' xs
  proof -
    have i: "int i < x1 - int x0" and j: "int j < y1 - int y0"
      using assms(2,3) w h by linarith+
    have "px z (width c) (height c) (region z' w' h' xs (int x0, int y0, x1, y1)) (int i) (int j) =
        region z' w' h' xs (int x0, int y0, x1, y1) ! (j * nat (x1 - int x0) + i)"
      using i j unfolding px_def [of z] w h by simp
    also have "\<dots> = px z' w' h' xs (int x0 + int i) (int y0 + int j)"
      using assms(2,3) w h by (intro region_nth) simp_all
    finally show ?thesis by simp
  qed
  show ?thesis
  proof (cases "data im")
    case (LData vs)
    with assms(1) have "data c = LData (region 0 (width im) (height im) vs (int x0, int y0, x1, y1))"
      by (auto simp: crop_def split: if_splits)
    then show ?thesis using LData by (simp add: pixel_of_def r)
  next
    case (RGBData ts)
    with assms(1) have "data c = RGBData (region (0, 0, 0) (width im) (height im) ts (int x0, int y0, x1, y1))"
      by (auto simp: crop_def split: if_splits)
    then show ?thesis using RGBData by (simp add: pixel_of_def r)
  qed
qed

lemma row_of_store:
  "k + w \<le> length xs \<Longrightarrow> map (\<lambda>i. xs ! (k + i)) [0..<w] = take w (drop k xs)"
  by (rule nth_equalityI) simp_all

lemma grid_of_store:
  "w * h \<le> length xs \<Longrightarrow>
   concat (map (\<lambda>j. map (\<lambda>i. xs ! (j * w + i)) [0..<w]) [0..<h]) = take (w * h) xs"
proof (induction h)
  case 0
  then show ?case by simp
next
  case (Suc h)
  let ?F = "\<lambda>j. map (\<lambda>i. xs ! (j * w + i)) [0..<w]"
  from Suc.prems have le: "h * w + w \<le> length xs" by (simp add: mult.commute)
  then have row: "?F h = take w (drop (h * w) xs)"
    by (rule row_of_store)
  have ih: "concat (map ?F [0..<h]) = take (h * w) xs"
    using Suc.IH le by (simp add: mult.commute)
  have e: "w * Suc h = h * w + w" by (simp add: mult.commute)
  have "concat (map ?F [0..<Suc h]) = concat (map ?F [0..<h]) @ ?F h" by simp
  also have "\<dots> = take (h * w) xs @ take w (drop (h * w) xs)" by (simp only: ih row)
  also have "\<dots> = take (h * w + w) xs" by (rule take_add [symmetric])
  finally show ?case by (simp only: e)
qed

lemma region_full:
  assumes "length xs = w * h"
  shows "region z w h xs (0, 0, int w, int h) = xs"
proof -
  have a: "region z w h xs (0, 0, int w, int h) =
      concat (map (\<lambda>j. map (\<lambda>i. px z w h xs (0 + int i) (0 + int j)) [0..<w]) [0..<h])"
    by (simp add: region_def)
  have "map (\<lambda>i. px z w h xs (0 + int i) (0 + int j)) [0..<w] = map (\<lambda>i. xs ! (j * w + i)) [0..<w]"
    if "j \<in> set [0..<h]" for j
    using that by (intro map_cong) (auto simp: px_def)
  then have b: "map (\<lambda>j. map (\<lambda>i. px z w h xs (0 + int i) (0 + int j)) [0..<w]) [0..<h] =
      map (\<lambda>j. map (\<lambda>i. xs ! (j * w + i)) [0..<w]) [0..<h]"
    by (intro map_cong) auto
  have "region z w h xs (0, 0, int w, int h) =
      concat (map (\<lambda>j. map (\<lambda>i. xs ! (j * w + i)) [0..<w]) [0..<h])"
    by (simp only: a b)
  also have "\<dots> = take (w * h) xs" using assms by (intro grid_of_store) simp
  finally show ?thesis using assms by simp
qed

lemma crop_full:
  "wf_image im \<Longrightarrow> crop im (0, 0, int (width im), int (height im)) = Inr (im\<lparr>format := None\<rparr>)"
  by (cases "data im") (auto simp: crop_def wf_image_def region_full)

lemma dims_convert_L [simp]:
  "width (convert_L im) = width im" "height (convert_L im) = height im"
  by (simp_all add: convert_L_def)

lemma unletterbox_crop:
  "unletterbox im T =
     (case crop im
        (int (length (takeWhile (col_black (convert_L im) T) [0..<width im])),
         int (length (takeWhile (row_black (convert_L im) T) [0..<height im])),
         int (width im) - int (length (takeWhile (col_black (convert_L im) T) (rev [0..<width im]))),
         int (height im) - int (length (takeWhile (row_black (convert_L im) T) (rev [0..<height im]))))
      of Inl e \<Rightarrow> Inl e | Inr c \<Rightarrow> Inr (format im, c))"
  by (simp add: unletterbox_def Let_def detect_top_border_count detect_bottom_border_count
      detect_left_border_count detect_right_border_count)

section \<open>Images without a border\<close>

lemma no_run_from_first:
  "0 < n \<Longrightarrow> \<not> P 0 \<Longrightarrow> length (takeWhile P [0..<n]) = 0"
  by (simp add: takeWhile_eq_Nil_iff hd_upt)

lemma no_run_from_last:
  "0 < n \<Longrightarrow> \<not> P (n - 1) \<Longrightarrow> length (takeWhile P (rev [0..<n])) = 0"
  by (simp add: takeWhile_eq_Nil_iff hd_rev last_upt)

lemma row_black_no_columns: "width im = 0 \<Longrightarrow> row_black im T y"
  by (simp add: row_black_def)

lemma col_black_no_rows: "height im = 0 \<Longrightarrow> col_black im T x"
  by (simp add: col_black_def)

lemma unletterbox_no_border:
  assumes "wf_image im"
    and "\<not> row_black (convert_L im) T 0" and "\<not> row_black (convert_L im) T (height im - 1)"
    and "\<not> col_black (convert_L im) T 0" and "\<not> col_black (convert_L im) T (width im - 1)"
  shows "detect_top_border (convert_L im) T = Inr 0"
    and "detect_bottom_border (convert_L im) T = Inr 0"
    and "detect_left_border (convert_L im) T = Inr 0"
    and "detect_right_border (convert_L im) T = Inr 0"
    and "unletterbox im T = Inr (format im, im\<lparr>format := None\<rparr>)"
proof -
  have w: "0 < width im" using assms(2) row_black_no_columns [of "convert_L im"] by fastforce
  have h: "0 < height im" using assms(4) col_black_no_rows [of "convert_L im"] by fastforce
  have t: "length (takeWhile (row_black (convert_L im) T) [0..<height im]) = 0"
    using h assms(2) by (rule no_run_from_first)
  have b: "length (takeWhile (row_black (convert_L im) T) (rev [0..<height im])) = 0"
    using h assms(3) by (rule no_run_from_last)
  have l: "length (takeWhile (col_black (convert_L im) T) [0..<width im]) = 0"
    using w assms(4) by (rule no_run_from_first)
  have r: "length (takeWhile (col_black (convert_L im) T) (rev [0..<width im])) = 0"
    using w assms(5) by (rule no_run_from_last)
  show "detect_top_border (convert_L im) T = Inr 0"
    using t by (simp add: detect_top_border_count)
  show "detect_bottom_border (convert_L im) T = Inr 0"
    using b by (simp add: detect_bottom_border_count del: takeWhile_eq_Nil_iff)
  show "detect_left_border (convert_L im) T = Inr 0"
    using l by (simp add: detect_left_border_count)
  show "detect_right_border (convert_L im) T = Inr 0"
    using r by (simp add: detect_right_border_count)
  show "unletterbox im T = Inr (format im, im\<lparr>format := None\<rparr>)"
    by (simp only: unletterbox_crop t b l r) (simp add: crop_full [OF assms(1)])
qed

text \<open>
  Claim C6. When the first and the last row and the first and the last column of the
  image each hold a pixel that is not black at the threshold (on the grayscale copy,
  which is what the scanners read), all four widths are 0 and the image written is the
  opened image: same size, mode and pixels, saved in the format of the opened image.
\<close>

theorem borderless_image_unchanged:
  assumes "wf_image im"
    and "\<not> row_black (convert_L im) T 0" and "\<not> row_black (convert_L im) T (height im - 1)"
    and "\<not> col_black (convert_L im) T 0" and "\<not> col_black (convert_L im) T (width im - 1)"
  shows "detect_top_border (convert_L im) T = Inr 0 \<and>
    detect_bottom_border (convert_L im) T = Inr 0 \<and>
    detect_left_border (convert_L im) T = Inr 0 \<and>
    detect_right_border (convert_L im) T = Inr 0 \<and>
    unletterbox im T = Inr (format im, im\<lparr>format := None\<rparr>)"
  using unletterbox_no_border [OF assms] by simp


lemma wf_diag2: "wf_image diag2"
  by (simp add: wf_image_def diag2_def)

lemma lines_diag2:
  "\<not> row_black (convert_L diag2) 10 0" "\<not> row_black (convert_L diag2) 10 (height diag2 - 1)"
  "\<not> col_black (convert_L diag2) 10 0" "\<not> col_black (convert_L diag2) 10 (width diag2 - 1)"
  by (simp_all add: row_black_def col_black_def pixel_of_def convert_L_def diag2_def px_def
      rgb2l_def upt_rec)

theorem borderless_image_unchanged_witness:
  "wf_image diag2 \<and>
   \<not> row_black (convert_L diag2) 10 0 \<and> \<not> row_black (convert_L diag2) 10 (height diag2 - 1) \<and>
   \<not> col_black (convert_L diag2) 10 0 \<and> \<not> col_black (convert_L diag2) 10 (width diag2 - 1) \<and>
   detect_top_border (convert_L diag2) 10 = Inr 0 \<and>
   detect_bottom_border (convert_L diag2) 10 = Inr 0 \<and>
   detect_left_border (convert_L diag2) 10 = Inr 0 \<and>
   detect_right_border (convert_L diag2) 10 = Inr 0 \<and>
   unletterbox diag2 10 = Inr (format diag2, diag2\<lparr>format := None\<rparr>)"
  using borderless_image_unchanged [OF wf_diag2 lines_diag2] wf_diag2 lines_diag2 by blast

section \<open>The grayscale copy\<close>

lemma data_convert_L: "\<exists>vs. data (convert_L im) = LData vs"
  by (cases "data im") (simp_all add: convert_L_def)

lemma mode_convert_L: "mode (convert_L im) = ''L''"
  using data_convert_L [of im] by (auto simp: mode_def)

lemma getdata_crop_gray:
  assumes "crop (convert_L im) bx = Inr c" and "p \<in> set (getdata c)"
  shows "\<exists>v. p = Gray v \<and> 0 \<le> v"
proof -
  obtain vs where "data (convert_L im) = LData vs" using data_convert_L by blast
  with assms(1) obtain ws where "data c = LData ws"
    by (cases bx) (auto simp: crop_def split: if_splits)
  with assms(2) show ?thesis by (auto simp: getdata_def)
qed

lemma pixel_of_gray: "\<exists>v. pixel_of (convert_L im) x y = Gray v \<and> 0 \<le> v"
  using data_convert_L [of im] by (auto simp: pixel_of_def)

lemma not_black_at_zero: "\<not> is_pixel_black (pixel_of (convert_L im) x y) 0"
  using pixel_of_gray [of im x y] by auto

lemma row_not_black_at_zero: "0 < width im \<Longrightarrow> \<not> row_black (convert_L im) 0 y"
  using not_black_at_zero [of im 0 y] by (auto simp: row_black_def list_all_iff)

lemma col_not_black_at_zero: "0 < height im \<Longrightarrow> \<not> col_black (convert_L im) 0 x"
  using not_black_at_zero [of im x 0] by (auto simp: col_black_def list_all_iff)

text \<open>
  Claim C10. At every threshold the four widths that \<^verbatim>\<open>unletterbox\<close> crops by are the
  results of the scanners on the grayscale copy, an image of mode \<^verbatim>\<open>L\<close>: every pixel
  of every line cropped from it is an integer, never a tuple, and not negative, so the
  predicate is only ever reached in its strict comparison. At the default threshold 0
  no such pixel is black; for an image with at least one pixel, as every opened image
  has, all four widths are 0 and the image written is the whole opened image, in its
  format.
\<close>

theorem unletterbox_grayscale_threshold_zero:
  assumes "wf_image im" and "0 < width im" and "0 < height im"
  shows "(\<exists>left top' right bottom.
       detect_top_border (convert_L im) T = Inr top' \<and>
       detect_bottom_border (convert_L im) T = Inr bottom \<and>
       detect_left_border (convert_L im) T = Inr left \<and>
       detect_right_border (convert_L im) T = Inr right \<and>
       unletterbox im T =
         (case crop im (left, top', int (width im) - right, int (height im) - bottom) of
            Inl e \<Rightarrow> Inl e
          | Inr cropped_img \<Rightarrow> Inr (format im, cropped_img))) \<and>
    mode (convert_L im) = ''L'' \<and>
    (\<forall>bx c p. crop (convert_L im) bx = Inr c \<and> p \<in> set (getdata c) \<longrightarrow>
       (\<exists>v. p = Gray v \<and> 0 \<le> v \<and> is_pixel_black p T = (v < T)) \<and> \<not> is_pixel_black p 0) \<and>
    detect_top_border (convert_L im) 0 = Inr 0 \<and>
    detect_bottom_border (convert_L im) 0 = Inr 0 \<and>
    detect_left_border (convert_L im) 0 = Inr 0 \<and>
    detect_right_border (convert_L im) 0 = Inr 0 \<and>
    unletterbox im 0 = Inr (format im, im\<lparr>format := None\<rparr>)"
proof -
  let ?g = "convert_L im"
  have s: "detect_top_border ?g T = Inr (int (length (takeWhile (row_black ?g T) [0..<height im])))"
    "detect_left_border ?g T = Inr (int (length (takeWhile (col_black ?g T) [0..<width im])))"
    by (simp_all add: detect_top_border_count detect_left_border_count)
  have s': "detect_bottom_border ?g T =
      Inr (int (length (takeWhile (row_black ?g T) (rev [0..<height im]))))"
    "detect_right_border ?g T =
      Inr (int (length (takeWhile (col_black ?g T) (rev [0..<width im]))))"
    unfolding detect_bottom_border_count detect_right_border_count by simp_all
  have wiring: "\<exists>left top' right bottom.
       detect_top_border (convert_L im) T = Inr top' \<and>
       detect_bottom_border (convert_L im) T = Inr bottom \<and>
       detect_left_border (convert_L im) T = Inr left \<and>
       detect_right_border (convert_L im) T = Inr right \<and>
       unletterbox im T =
         (case crop im (left, top', int (width im) - right, int (height im) - bottom) of
            Inl e \<Rightarrow> Inl e
          | Inr cropped_img \<Rightarrow> Inr (format im, cropped_img))"
    using s s' unletterbox_crop [of im T] by blast
  have pix: "(\<exists>v. p = Gray v \<and> 0 \<le> v \<and> is_pixel_black p T = (v < T)) \<and> \<not> is_pixel_black p 0"
    if "crop (convert_L im) bx = Inr c" and "p \<in> set (getdata c)" for bx c p
    using getdata_crop_gray [OF that] by auto
  note nb = unletterbox_no_border [OF assms(1)
      row_not_black_at_zero [OF assms(2)] row_not_black_at_zero [OF assms(2)]
      col_not_black_at_zero [OF assms(3)] col_not_black_at_zero [OF assms(3)]]
  show ?thesis using wiring mode_convert_L [of im] pix nb by blast
qed

lemma wf_ring3: "wf_image ring3"
  by (simp add: wf_image_def ring3_def)

lemma size_ring3: "0 < width ring3" "0 < height ring3"
  by (simp_all add: ring3_def)

lemma middle_row_ring3:
  "crop (convert_L ring3) (0, 1, 3, 2) =
     Inr \<lparr> format = None, width = 3, height = 1, data = LData [0, 255, 0] \<rparr>"
  by (simp add: crop_def convert_L_def ring3_def region_def px_def rgb2l_def upt_rec)

lemma wf_blue2: "wf_image blue2"
  by (simp add: wf_image_def blue2_def)

lemma size_blue2: "0 < width blue2" "0 < height blue2"
  by (simp_all add: blue2_def)

lemma blue2_lines:
  "\<not> row_black (convert_L blue2) 1 0" "col_black (convert_L blue2) 1 0"
  "\<not> col_black (convert_L blue2) 1 (Suc 0)" "\<not> col_black blue2 1 0"
  by (simp_all add: row_black_def col_black_def pixel_of_def convert_L_def blue2_def px_def
      rgb2l_def upt_rec)

lemma blue2_scans:
  "detect_top_border (convert_L blue2) 1 = Inr 0"
  "detect_bottom_border (convert_L blue2) 1 = Inr 0"
  "detect_left_border (convert_L blue2) 1 = Inr 1"
  "detect_right_border (convert_L blue2) 1 = Inr 0"
  "detect_left_border blue2 1 = Inr 0"
proof -
  have u: "[0..<2] = [0, Suc 0]" by (simp add: upt_rec)
  have d: "width blue2 = 2" "height blue2 = 1" by (simp_all add: blue2_def)
  show "detect_top_border (convert_L blue2) 1 = Inr 0"
    "detect_bottom_border (convert_L blue2) 1 = Inr 0"
    "detect_left_border (convert_L blue2) 1 = Inr 1"
    "detect_right_border (convert_L blue2) 1 = Inr 0"
    "detect_left_border blue2 1 = Inr 0"
    by (simp_all add: detect_left_border_count detect_right_border_count detect_top_border_count
        detect_bottom_border_count d u blue2_lines)
qed

lemma blue2_crop:
  "crop blue2 (1, 0, int (width blue2), int (height blue2)) =
     Inr \<lparr> format = None, width = 1, height = 1, data = RGBData [(255, 255, 255)] \<rparr>"
  by (simp add: crop_def region_def px_def blue2_def)

theorem unletterbox_grayscale_threshold_zero_witness:
  "wf_image ring3 \<and> 0 < width ring3 \<and> 0 < height ring3 \<and>
   crop (convert_L ring3) (0, 1, 3, 2) =
     Inr \<lparr> format = None, width = 3, height = 1, data = LData [0, 255, 0] \<rparr> \<and>
   Gray 255 \<in> set (getdata \<lparr> format = None, width = 3, height = 1, data = LData [0, 255, 0] \<rparr>) \<and>
   \<not> is_pixel_black (Gray 255) 0 \<and>
   detect_top_border (convert_L ring3) 0 = Inr 0 \<and>
   detect_bottom_border (convert_L ring3) 0 = Inr 0 \<and>
   detect_left_border (convert_L ring3) 0 = Inr 0 \<and>
   detect_right_border (convert_L ring3) 0 = Inr 0 \<and>
   unletterbox ring3 0 = Inr (format ring3, ring3\<lparr>format := None\<rparr>) \<and>
   wf_image blue2 \<and> 0 < width blue2 \<and> 0 < height blue2 \<and>
   detect_left_border (convert_L blue2) 1 = Inr 1 \<and> detect_left_border blue2 1 = Inr 0 \<and>
   unletterbox blue2 1 =
     Inr (format blue2, \<lparr> format = None, width = 1, height = 1, data = RGBData [(255, 255, 255)] \<rparr>)"
proof -
  have g: "Gray 255 \<in> set (getdata \<lparr> format = None, width = 3, height = 1, data = LData [0, 255, 0] \<rparr>)"
    by (simp add: getdata_def)
  have A: "detect_top_border (convert_L ring3) 0 = Inr 0 \<and>
      detect_bottom_border (convert_L ring3) 0 = Inr 0 \<and>
      detect_left_border (convert_L ring3) 0 = Inr 0 \<and>
      detect_right_border (convert_L ring3) 0 = Inr 0 \<and>
      unletterbox ring3 0 = Inr (format ring3, ring3\<lparr>format := None\<rparr>) \<and>
      \<not> is_pixel_black (Gray 255) 0"
    using unletterbox_grayscale_threshold_zero [OF wf_ring3 size_ring3, of 0]
      middle_row_ring3 g
    by blast
  from unletterbox_grayscale_threshold_zero [OF wf_blue2 size_blue2, of 1]
  obtain left top' right bottom where
    s: "detect_top_border (convert_L blue2) 1 = Inr top'"
      "detect_bottom_border (convert_L blue2) 1 = Inr bottom"
      "detect_left_border (convert_L blue2) 1 = Inr left"
      "detect_right_border (convert_L blue2) 1 = Inr right"
    and u: "unletterbox blue2 1 =
      (case crop blue2 (left, top', int (width blue2) - right, int (height blue2) - bottom) of
         Inl e \<Rightarrow> Inl e
       | Inr cropped_img \<Rightarrow> Inr (format blue2, cropped_img))"
    by blast
  from s have "top' = 0" "bottom = 0" "left = 1" "right = 0" by (simp_all add: blue2_scans)
  with u have B: "unletterbox blue2 1 =
      Inr (format blue2, \<lparr> format = None, width = 1, height = 1, data = RGBData [(255, 255, 255)] \<rparr>)"
    by (simp add: blue2_crop)
  show ?thesis
    using A B wf_ring3 size_ring3 middle_row_ring3 g wf_blue2 size_blue2 blue2_scans(3,5)
    by blast
qed

section \<open>The all-black image\<close>

lemma all_black_counts:
  assumes "\<And>x y. x < width im \<Longrightarrow> y < height im \<Longrightarrow> is_pixel_black (pixel_of im x y) T"
  shows "length (takeWhile (row_black im T) [0..<height im]) = height im"
    and "length (takeWhile (row_black im T) (rev [0..<height im])) = height im"
    and "length (takeWhile (col_black im T) [0..<width im]) = width im"
    and "length (takeWhile (col_black im T) (rev [0..<width im])) = width im"
proof -
  have r: "list_all (row_black im T) [0..<height im]"
    using assms by (auto simp: row_black_def list_all_iff)
  have c: "list_all (col_black im T) [0..<width im]"
    using assms by (auto simp: col_black_def list_all_iff)
  have r': "list_all (row_black im T) (rev [0..<height im])" using r by (simp add: list_all_iff)
  have c': "list_all (col_black im T) (rev [0..<width im])" using c by (simp add: list_all_iff)
  show "length (takeWhile (row_black im T) [0..<height im]) = height im"
    by (simp only: takeWhile_all [OF r] length_upt diff_zero)
  show "length (takeWhile (row_black im T) (rev [0..<height im])) = height im"
    by (simp only: takeWhile_all [OF r'] length_rev length_upt diff_zero)
  show "length (takeWhile (col_black im T) [0..<width im]) = width im"
    by (simp only: takeWhile_all [OF c] length_upt diff_zero)
  show "length (takeWhile (col_black im T) (rev [0..<width im])) = width im"
    by (simp only: takeWhile_all [OF c'] length_rev length_upt diff_zero)
qed

lemma some_pixel_not_black:
  assumes "\<not> list_all (row_black im T) [0..<height im] \<or> \<not> list_all (col_black im T) [0..<width im]"
  shows "\<exists>x y. x < width im \<and> y < height im \<and> \<not> is_pixel_black (pixel_of im x y) T"
  using assms by (auto simp: row_black_def col_black_def list_all_iff) blast+


lemma degenerate_all_black:
  assumes "int (width im) \<le> int (length (takeWhile (col_black im T) [0..<width im])) +
        int (length (takeWhile (col_black im T) (rev [0..<width im]))) \<or>
      int (height im) \<le> int (length (takeWhile (row_black im T) [0..<height im])) +
        int (length (takeWhile (row_black im T) (rev [0..<height im])))"
  shows "x < width im \<Longrightarrow> y < height im \<Longrightarrow> is_pixel_black (pixel_of im x y) T"
proof (rule ccontr)
  assume x: "x < width im" and y: "y < height im"
    and n: "\<not> is_pixel_black (pixel_of im x y) T"
  have "\<not> row_black im T y" using x n by (auto simp: row_black_def list_all_iff)
  then have "\<not> list_all (row_black im T) [0..<height im]"
    using y by (auto simp: list_all_iff)
  from takeWhile_both_ends [OF this]
  have rows: "length (takeWhile (row_black im T) [0..<height im]) +
      length (takeWhile (row_black im T) (rev [0..<height im])) < height im" by simp
  have "\<not> col_black im T x" using y n by (auto simp: col_black_def list_all_iff)
  then have "\<not> list_all (col_black im T) [0..<width im]"
    using x by (auto simp: list_all_iff)
  from takeWhile_both_ends [OF this]
  have cols: "length (takeWhile (col_black im T) [0..<width im]) +
      length (takeWhile (col_black im T) (rev [0..<width im])) < width im" by simp
  from assms rows cols show False by linarith
qed

lemma crop_inverted:
  "0 < w \<or> 0 < h \<Longrightarrow> crop im (int w, int h, 0, 0) = Inl (PyException ''ValueError'')"
  by (auto simp: crop_def)

text \<open>
  Claim C4, as amended. The program has no check of the geometry and no error of its
  own. When the widths found satisfy \<open>left + right \<ge> width\<close> or
  \<open>top + bottom \<ge> height\<close> on an image that is not 0 by 0, every pixel is black, each
  width is the full dimension, the box handed to \<^verbatim>\<open>crop\<close> is \<open>(width, height, 0, 0)\<close>,
  and what reaches the caller is the \<^verbatim>\<open>ValueError\<close> that the imaging library raises
  for an inverted box.
\<close>

theorem degenerate_geometry_library_error:
  assumes "0 < width im \<or> 0 < height im"
    and "detect_left_border (convert_L im) T = Inr l"
    and "detect_right_border (convert_L im) T = Inr r"
    and "detect_top_border (convert_L im) T = Inr t"
    and "detect_bottom_border (convert_L im) T = Inr b"
    and "int (width im) \<le> l + r \<or> int (height im) \<le> t + b"
  shows "l = int (width im) \<and> r = int (width im) \<and> t = int (height im) \<and>
    b = int (height im) \<and> unletterbox im T = Inl (PyException ''ValueError'')"
proof -
  let ?g = "convert_L im"
  have l: "l = int (length (takeWhile (col_black ?g T) [0..<width ?g]))"
    using assms(2) by (simp add: detect_left_border_count)
  have r: "r = int (length (takeWhile (col_black ?g T) (rev [0..<width ?g])))"
    using assms(3) unfolding detect_right_border_count by simp
  have t: "t = int (length (takeWhile (row_black ?g T) [0..<height ?g]))"
    using assms(4) by (simp add: detect_top_border_count)
  have b: "b = int (length (takeWhile (row_black ?g T) (rev [0..<height ?g])))"
    using assms(5) unfolding detect_bottom_border_count by simp
  have deg: "int (width ?g) \<le> int (length (takeWhile (col_black ?g T) [0..<width ?g])) +
        int (length (takeWhile (col_black ?g T) (rev [0..<width ?g]))) \<or>
      int (height ?g) \<le> int (length (takeWhile (row_black ?g T) [0..<height ?g])) +
        int (length (takeWhile (row_black ?g T) (rev [0..<height ?g])))"
    using assms(6) unfolding l r t b by simp
  note full = all_black_counts [of ?g T, OF degenerate_all_black [OF deg]]
  have l': "l = int (width im)" using l full(3) by simp
  have r': "r = int (width im)" using r full(4) by simp
  have t': "t = int (height im)" using t full(1) by simp
  have b': "b = int (height im)" using b full(2) by simp
  have "unletterbox im T = Inl (PyException ''ValueError'')"
    using full crop_inverted [OF assms(1), of im]
    by (simp add: unletterbox_crop del: takeWhile_eq_all_conv)
  with l' r' t' b' show ?thesis by simp
qed


lemma black1_lines:
  "row_black (convert_L black1) 1 0" "col_black (convert_L black1) 1 0"
  "\<not> row_black (convert_L black1) 0 0" "\<not> col_black (convert_L black1) 0 0"
  by (simp_all add: row_black_def col_black_def pixel_of_def convert_L_def black1_def px_def)

lemma black1_size: "width black1 = 1" "height black1 = 1"
  by (simp_all add: black1_def)

lemma black1_scans_one:
  "detect_left_border (convert_L black1) 1 = Inr 1"
  "detect_right_border (convert_L black1) 1 = Inr 1"
  "detect_top_border (convert_L black1) 1 = Inr 1"
  "detect_bottom_border (convert_L black1) 1 = Inr 1"
  by (simp_all add: detect_left_border_count detect_right_border_count detect_top_border_count
      detect_bottom_border_count black1_size black1_lines)

theorem degenerate_geometry_library_error_witness:
  "0 < width black1 \<and>
   detect_left_border (convert_L black1) 1 = Inr 1 \<and>
   detect_right_border (convert_L black1) 1 = Inr 1 \<and>
   detect_top_border (convert_L black1) 1 = Inr 1 \<and>
   detect_bottom_border (convert_L black1) 1 = Inr 1 \<and>
   int (width black1) \<le> 1 + 1 \<and>
   unletterbox black1 1 = Inl (PyException ''ValueError'')"
proof -
  have p: "0 < width black1" by (simp add: black1_size)
  then have p': "0 < width black1 \<or> 0 < height black1" ..
  have d: "int (width black1) \<le> 1 + 1" by (simp add: black1_size)
  then have d': "int (width black1) \<le> 1 + 1 \<or> int (height black1) \<le> 1 + 1" ..
  show ?thesis
    using degenerate_geometry_library_error [OF p' black1_scans_one d'] p d black1_scans_one
    by blast
qed

text \<open>
  Claim C4 as stated fails. On the one-pixel black image at threshold 1 the left and
  right widths are both 1, so \<open>left + right \<ge> width\<close>; the program raises no
  \<^verbatim>\<open>DegenerateGeometryError\<close>: the only error is the library's \<^verbatim>\<open>ValueError\<close>.
\<close>

theorem degenerate_geometry_error_counterexample:
  "detect_left_border (convert_L black1) 1 = Inr 1 \<and>
   detect_right_border (convert_L black1) 1 = Inr 1 \<and>
   int (width black1) \<le> 1 + 1 \<and>
   unletterbox black1 1 = Inl (PyException ''ValueError'') \<and>
   unletterbox black1 1 \<noteq> Inl (PyException ''DegenerateGeometryError'')"
proof -
  have "unletterbox black1 1 = Inl (PyException ''ValueError'')"
    by (simp add: unletterbox_crop black1_size black1_lines crop_def)
  then show ?thesis by (simp add: black1_scans_one black1_size)
qed

text \<open>
  Claim C5 says that for an image of zeros at threshold 0 all four widths are the full
  dimension. The code gives something else: on the one-pixel image of value 0 the
  grayscale branch tests \<open>0 < 0\<close>, no line is black, all four widths are 0 where the
  dimension is 1, and the image is written back whole. The colour branch of the same
  predicate does take the pixel \<open>(0, 0, 0)\<close> for black at threshold 0.
\<close>

theorem all_zero_image_threshold_zero:
  "width black1 = 1 \<and> height black1 = 1 \<and> getdata black1 = [Gray 0] \<and>
   detect_top_border (convert_L black1) 0 = Inr 0 \<and>
   detect_bottom_border (convert_L black1) 0 = Inr 0 \<and>
   detect_left_border (convert_L black1) 0 = Inr 0 \<and>
   detect_right_border (convert_L black1) 0 = Inr 0 \<and>
   unletterbox black1 0 = Inr (format black1, black1\<lparr>format := None\<rparr>) \<and>
   \<not> is_pixel_black (Gray 0) 0 \<and> is_pixel_black (RGB 0 0 0) 0"
proof -
  have wf: "wf_image black1" by (simp add: wf_image_def black1_def)
  have l: "\<not> row_black (convert_L black1) 0 (height black1 - 1)"
      "\<not> col_black (convert_L black1) 0 (width black1 - 1)"
    by (simp_all add: black1_size black1_lines)
  note nb = unletterbox_no_border [OF wf black1_lines(3) l(1) black1_lines(4) l(2)]
  have "getdata black1 = [Gray 0]" by (simp add: getdata_def black1_def)
  with nb show ?thesis by (simp add: black1_size)
qed

section \<open>The image written\<close>

lemma crop_Inr_dims:
  assumes "crop im (x0, y0, x1, y1) = Inr c"
  shows "x0 \<le> x1" and "y0 \<le> y1" and "int (width c) = x1 - x0" and "int (height c) = y1 - y0"
    and "mode c = mode im"
  using assms by (auto simp: crop_def mode_def split: if_splits raster.splits)

lemma crop_valid: "x0 \<le> x1 \<Longrightarrow> y0 \<le> y1 \<Longrightarrow> \<exists>c. crop im (x0, y0, x1, y1) = Inr c"
  by (simp add: crop_def)

lemma unletterbox_Inr:
  assumes "unletterbox im T = Inr (fmt, c)"
  shows "fmt = format im"
    and "crop im
        (int (length (takeWhile (col_black (convert_L im) T) [0..<width im])),
         int (length (takeWhile (row_black (convert_L im) T) [0..<height im])),
         int (width im) - int (length (takeWhile (col_black (convert_L im) T) (rev [0..<width im]))),
         int (height im) - int (length (takeWhile (row_black (convert_L im) T) (rev [0..<height im]))))
      = Inr c"
  using assms unfolding unletterbox_crop by (auto split: sum.splits)

lemma unletterbox_returns:
  assumes "x < width im" and "y < height im"
    and "\<not> is_pixel_black (pixel_of (convert_L im) x y) T"
  shows "\<exists>c. unletterbox im T = Inr (format im, c)"
proof -
  let ?g = "convert_L im"
  let ?l = "length (takeWhile (col_black ?g T) [0..<width im])"
  let ?r = "length (takeWhile (col_black ?g T) (rev [0..<width im]))"
  let ?t = "length (takeWhile (row_black ?g T) [0..<height im])"
  let ?b = "length (takeWhile (row_black ?g T) (rev [0..<height im]))"
  have "\<not> (int (width ?g) \<le> int (length (takeWhile (col_black ?g T) [0..<width ?g])) +
        int (length (takeWhile (col_black ?g T) (rev [0..<width ?g]))) \<or>
      int (height ?g) \<le> int (length (takeWhile (row_black ?g T) [0..<height ?g])) +
        int (length (takeWhile (row_black ?g T) (rev [0..<height ?g]))))"
    using degenerate_all_black [of ?g T x y] assms by auto
  then have "int ?l \<le> int (width im) - int ?r" and "int ?t \<le> int (height im) - int ?b"
    by simp_all
  from crop_valid [OF this, of im] obtain c where
    "crop im (int ?l, int ?t, int (width im) - int ?r, int (height im) - int ?b) = Inr c" ..
  then have "unletterbox im T = Inr (format im, c)" by (simp add: unletterbox_crop)
  then show ?thesis ..
qed

text \<open>
  Claim C3. The four widths are those the scanners find on the grayscale copy; the
  image written is the crop of the opened image, not of the copy, at the box
  \<open>(left, top, width - right, height - bottom)\<close>; it is saved in the format of the
  opened image, has its mode, and each of its pixels is the pixel of the opened image
  at the same place shifted by \<open>(left, top)\<close>, with its value unchanged. An image is
  written whenever some pixel is not black.
\<close>

theorem crop_from_original_image:
  "(unletterbox im T = Inr (fmt, c) \<longrightarrow>
      (\<exists>left top' right bottom.
         detect_left_border (convert_L im) T = Inr left \<and>
         detect_top_border (convert_L im) T = Inr top' \<and>
         detect_right_border (convert_L im) T = Inr right \<and>
         detect_bottom_border (convert_L im) T = Inr bottom \<and>
         crop im (left, top', int (width im) - right, int (height im) - bottom) = Inr c \<and>
         fmt = format im \<and> mode c = mode im \<and>
         int (width c) = int (width im) - right - left \<and>
         int (height c) = int (height im) - bottom - top' \<and>
         (\<forall>i j. i < width c \<and> j < height c \<longrightarrow>
            pixel_of c i j = pixel_of im (nat left + i) (nat top' + j)))) \<and>
   (x < width im \<and> y < height im \<and> \<not> is_pixel_black (pixel_of (convert_L im) x y) T \<longrightarrow>
      (\<exists>c'. unletterbox im T = Inr (format im, c')))"
proof (intro conjI impI)
  assume a: "unletterbox im T = Inr (fmt, c)"
  let ?g = "convert_L im"
  let ?l = "length (takeWhile (col_black ?g T) [0..<width im])"
  let ?r = "length (takeWhile (col_black ?g T) (rev [0..<width im]))"
  let ?t = "length (takeWhile (row_black ?g T) [0..<height im])"
  let ?b = "length (takeWhile (row_black ?g T) (rev [0..<height im]))"
  note u = unletterbox_Inr [OF a]
  note d = crop_Inr_dims [OF u(2)]
  have p: "\<forall>i j. i < width c \<and> j < height c \<longrightarrow>
      pixel_of c i j = pixel_of im (nat (int ?l) + i) (nat (int ?t) + j)"
    using pixel_of_crop [OF u(2)] by simp
  have s: "detect_left_border ?g T = Inr (int ?l)" "detect_top_border ?g T = Inr (int ?t)"
    by (simp_all add: detect_left_border_count detect_top_border_count)
  have s': "detect_right_border ?g T = Inr (int ?r)" "detect_bottom_border ?g T = Inr (int ?b)"
    unfolding detect_right_border_count detect_bottom_border_count by simp_all
  have w: "int (width c) = int (width im) - int ?r - int ?l"
    and h: "int (height c) = int (height im) - int ?b - int ?t"
    using d(3,4) by simp_all
  show "\<exists>left top' right bottom.
         detect_left_border (convert_L im) T = Inr left \<and>
         detect_top_border (convert_L im) T = Inr top' \<and>
         detect_right_border (convert_L im) T = Inr right \<and>
         detect_bottom_border (convert_L im) T = Inr bottom \<and>
         crop im (left, top', int (width im) - right, int (height im) - bottom) = Inr c \<and>
         fmt = format im \<and> mode c = mode im \<and>
         int (width c) = int (width im) - right - left \<and>
         int (height c) = int (height im) - bottom - top' \<and>
         (\<forall>i j. i < width c \<and> j < height c \<longrightarrow>
            pixel_of c i j = pixel_of im (nat left + i) (nat top' + j))"
    using s s' u d(5) w h p by blast
next
  assume "x < width im \<and> y < height im \<and> \<not> is_pixel_black (pixel_of (convert_L im) x y) T"
  then show "\<exists>c'. unletterbox im T = Inr (format im, c')"
    using unletterbox_returns by blast
qed


lemma ring3_scans_one:
  "detect_left_border (convert_L ring3) 1 = Inr 1"
  "detect_top_border (convert_L ring3) 1 = Inr 1"
  "detect_right_border (convert_L ring3) 1 = Inr 1"
  "detect_bottom_border (convert_L ring3) 1 = Inr 1"
proof -
  have u: "[0..<3] = [0, 1, 2]" by (simp add: upt_rec)
  have d: "width ring3 = 3" "height ring3 = 3" by (simp_all add: ring3_def)
  show "detect_left_border (convert_L ring3) 1 = Inr 1"
    "detect_top_border (convert_L ring3) 1 = Inr 1"
    "detect_right_border (convert_L ring3) 1 = Inr 1"
    "detect_bottom_border (convert_L ring3) 1 = Inr 1"
    by (simp_all add: detect_left_border_count detect_right_border_count detect_top_border_count
        detect_bottom_border_count d u rows_ring3 cols_ring3)
qed

lemma unletterbox_ring3:
  "unletterbox ring3 1 =
     Inr (Some ''PNG'', \<lparr> format = None, width = 1, height = 1, data = RGBData [(255, 255, 255)] \<rparr>)"
proof -
  have u: "[0..<3] = [0, 1, 2]" by (simp add: upt_rec)
  have d: "width ring3 = 3" "height ring3 = 3" by (simp_all add: ring3_def)
  have "unletterbox ring3 1 = (case crop ring3 (1, 1, 2, 2) of Inl e \<Rightarrow> Inl e | Inr c \<Rightarrow> Inr (format ring3, c))"
    by (simp add: unletterbox_crop d u rows_ring3 cols_ring3)
  moreover have "crop ring3 (1, 1, 2, 2) =
      Inr \<lparr> format = None, width = 1, height = 1, data = RGBData [(255, 255, 255)] \<rparr>"
    by (simp add: crop_def region_def px_def ring3_def)
  moreover have "format ring3 = Some ''PNG''" by (simp add: ring3_def)
  ultimately show ?thesis by simp
qed

theorem crop_from_original_image_witness:
  "unletterbox ring3 1 =
     Inr (Some ''PNG'', \<lparr> format = None, width = 1, height = 1, data = RGBData [(255, 255, 255)] \<rparr>) \<and>
   format ring3 = Some ''PNG'' \<and>
   mode \<lparr> format = None, width = 1, height = 1, data = RGBData [(255, 255, 255)] \<rparr> = mode ring3 \<and>
   pixel_of \<lparr> format = None, width = 1, height = 1, data = RGBData [(255, 255, 255)] \<rparr> 0 0 =
     pixel_of ring3 1 1 \<and>
   1 < width ring3 \<and> 1 < height ring3 \<and>
   \<not> is_pixel_black (pixel_of (convert_L ring3) 1 1) 1 \<and>
   (\<exists>c'. unletterbox ring3 1 = Inr (format ring3, c'))"
proof -
  let ?c = "\<lparr> format = None, width = 1, height = 1, data = RGBData [(255, 255, 255)] \<rparr>"
  note t = crop_from_original_image [of ring3 1 "Some ''PNG''" ?c 1 1]
  have n: "1 < width ring3 \<and> 1 < height ring3 \<and>
      \<not> is_pixel_black (pixel_of (convert_L ring3) 1 1) 1"
    by (simp only: pixel_ring3) (simp add: ring3_def)
  from t unletterbox_ring3 obtain left top' where
    l: "detect_left_border (convert_L ring3) 1 = Inr left"
    and t': "detect_top_border (convert_L ring3) 1 = Inr top'"
    and f: "Some ''PNG'' = format ring3" and m: "mode ?c = mode ring3"
    and p: "\<forall>i j. i < width ?c \<and> j < height ?c \<longrightarrow>
      pixel_of ?c i j = pixel_of ring3 (nat left + i) (nat top' + j)"
    by blast
  from l t' have "left = 1" "top' = 1" by (simp_all add: ring3_scans_one)
  with p have "pixel_of ?c 0 0 = pixel_of ring3 1 1" by simp
  moreover from t n have "\<exists>c'. unletterbox ring3 1 = Inr (format ring3, c')" by blast
  ultimately show ?thesis using unletterbox_ring3 f m n by simp
qed

section \<open>Applying the crop twice\<close>
























end
